theory Spec2Isabelle
  imports Complex_Main "HOL-Library.Word"
begin

unbundle bit_operations_syntax

section \<open>Base64 encoder of \<^verbatim>\<open>encoder.c\<close>: data model\<close>

text \<open>
  The C program works on \<^verbatim>\<open>uint8_t\<close> input bytes, a \<^verbatim>\<open>uint32_t\<close> packing buffer and
  \<^verbatim>\<open>char\<close> output. Bytes and the packing buffer are machine words; output characters
  are HOL characters, and a C string is a character list that ends at its first NUL.
\<close>

type_synonym u8 = "8 word"
type_synonym u32 = "32 word"

text \<open>
  Everything the C code could do wrong is a value: an access outside an array, a shift
  whose count comes from a \<^verbatim>\<open>size_t\<close> subtraction that wrapped around, and the
  failing \<^verbatim>\<open>assert(feof(in))\<close>.
\<close>

datatype error = OutOfBounds | BadShift | AssertFailed

definition NUL :: char where
  "NUL = CHR 0x00"

definition CRLF :: string where
  "CRLF = [CHR 0x0D, CHR 0x0A]"

text \<open>
  \<^verbatim>\<open>const char base64_table[] = "ABC...+/";\<close> (line 20): an array of 65 characters, the 64
  symbols and the terminating NUL of the string literal.
\<close>

definition base64_table :: "char list" where
  "base64_table =
     ''ABCDEFGHIJKLMNOPQRSTUVWXYZabcdefghijklmnopqrstuvwxyz0123456789+/'' @ [NUL]"

section \<open>The block transform (lines 86 to 121)\<close>

text \<open>
  Values of type \<^verbatim>\<open>size_t\<close> are natural numbers. With the lengths a 3-byte array allows
  no \<^verbatim>\<open>size_t\<close> expression of the transform reaches the width of the type; the two
  subtractions that can wrap around, \<^verbatim>\<open>3-i-1\<close> and \<^verbatim>\<open>4-i-1\<close>, are guarded in the model
  and reported as \<open>BadShift\<close>.

  Line 102: \<^verbatim>\<open>len_out = (8*len_in + 5)/6\<close>.
\<close>

definition len_out_of :: "nat \<Rightarrow> nat" where
  "len_out_of len_in = (8 * len_in + 5) div 6"

text \<open>
  Stage 1, lines 107 to 109: \<^verbatim>\<open>for (i = 0; i < len_in; ++i) buf |= buf_in[i] << (8*(3-i-1))\<close>.
  The shift count is computed in \<^verbatim>\<open>size_t\<close>; from \<open>i = 3\<close> on the subtraction wraps around
  and the shift is undefined, which the model reports. Reading \<open>buf_in\<close> outside the array
  is reported too.
\<close>

function encode_block_pack :: "u8 list \<Rightarrow> nat \<Rightarrow> nat \<Rightarrow> u32 \<Rightarrow> error + u32" where
  "encode_block_pack buf_in len_in i buf =
     (if i < len_in then
        if length buf_in \<le> i then Inl OutOfBounds
        else if 3 \<le> i then Inl BadShift
        else encode_block_pack buf_in len_in (i + 1)
               (buf OR push_bit (8 * (3 - i - 1)) (ucast (buf_in ! i)))
      else Inr buf)"
  by pat_completeness auto
termination
  by (relation "measure (\<lambda>(buf_in, len_in, i, buf). len_in - i)") auto

declare encode_block_pack.simps [simp del]

text \<open>
  Stage 2, lines 112 to 115: starting from \<^verbatim>\<open>msk = 0x3F << 18\<close>,
  \<^verbatim>\<open>for (i = 0; i < len_out; ++i, msk >>= 6) buf_out[i] = base64_table[(buf & msk) >> (6*(4-i-1))]\<close>.
\<close>

definition table_index :: "u32 \<Rightarrow> u32 \<Rightarrow> nat \<Rightarrow> nat" where
  "table_index buf msk i = unat (drop_bit (6 * (4 - i - 1)) (buf AND msk))"

function encode_block_symbols ::
  "char list \<Rightarrow> u32 \<Rightarrow> nat \<Rightarrow> nat \<Rightarrow> u32 \<Rightarrow> error + char list" where
  "encode_block_symbols buf_out buf len_out i msk =
     (if i < len_out then
        if 4 \<le> i then Inl BadShift
        else let idx = table_index buf msk i in
          if length base64_table \<le> idx \<or> length buf_out \<le> i then Inl OutOfBounds
          else encode_block_symbols (buf_out[i := base64_table ! idx]) buf len_out (i + 1)
                 (drop_bit 6 msk)
      else Inr buf_out)"
  by pat_completeness auto
termination
  by (relation "measure (\<lambda>(buf_out, buf, len_out, i, msk). len_out - i)") auto

declare encode_block_symbols.simps [simp del]

text \<open>The value of \<^verbatim>\<open>msk\<close> when iteration \<open>i\<close> of stage 2 starts.\<close>

primrec msk_at :: "nat \<Rightarrow> u32" where
  "msk_at 0 = push_bit (3 * 6) 0x3F"
| "msk_at (Suc i) = drop_bit 6 (msk_at i)"

text \<open>Stage 2.5, lines 118 to 120: \<^verbatim>\<open>for (i = len_out; i < 4; ++i) buf_out[i] = '='\<close>.\<close>

function encode_block_pad :: "char list \<Rightarrow> nat \<Rightarrow> error + char list" where
  "encode_block_pad buf_out i =
     (if i < 4 then
        if length buf_out \<le> i then Inl OutOfBounds
        else encode_block_pad (buf_out[i := CHR ''='']) (i + 1)
      else Inr buf_out)"
  by pat_completeness auto
termination
  by (relation "measure (\<lambda>(buf_out, i). 4 - i)") auto

declare encode_block_pad.simps [simp del]

text \<open>
  \<^verbatim>\<open>void base64_encode_block(char *buf_out, uint8_t *buf_in, size_t len_in)\<close>: the output
  buffer is passed in and returned updated; the input buffer is only read.
\<close>

definition base64_encode_block :: "char list \<Rightarrow> u8 list \<Rightarrow> nat \<Rightarrow> error + char list" where
  "base64_encode_block buf_out buf_in len_in =
     (let len_out = len_out_of len_in in
      case encode_block_pack buf_in len_in 0 0 of
        Inl e \<Rightarrow> Inl e
      | Inr buf \<Rightarrow>
          (case encode_block_symbols buf_out buf len_out 0 (push_bit (3 * 6) 0x3F) of
             Inl e \<Rightarrow> Inl e
           | Inr buf_out' \<Rightarrow> encode_block_pad buf_out' len_out))"

section \<open>The stream driver (lines 60 to 84)\<close>

text \<open>
  The input stream as \<^verbatim>\<open>fread\<close> and \<^verbatim>\<open>feof\<close> see it: the bytes not yet read and the
  end-of-file indicator. The stream is finite and reading it does not fail.
\<close>

record FILE =
  content :: "u8 list"
  eof_ind :: bool

text \<open>\<^verbatim>\<open>fopen(argv[1], "r")\<close> in \<^verbatim>\<open>main\<close>: positioned at the first byte, indicator clear.\<close>

definition fopen :: "u8 list \<Rightarrow> FILE" where
  "fopen bs = \<lparr>content = bs, eof_ind = False\<rparr>"

definition feof :: "FILE \<Rightarrow> bool" where
  "feof f = eof_ind f"

text \<open>
  \<^verbatim>\<open>fread(buf_in, 1, sizeof buf_in, in)\<close>: reads up to \<open>length buf\<close> bytes into the front of
  the buffer and leaves the rest of the buffer as it was; a read that ends before the
  buffer is full sets the end-of-file indicator, and nothing is read once it is set.
  Returns the number of bytes read, the buffer and the stream.
\<close>

definition fread :: "u8 list \<Rightarrow> FILE \<Rightarrow> nat \<times> u8 list \<times> FILE" where
  "fread buf f =
     (let got = (if eof_ind f then [] else take (length buf) (content f)) in
      (length got,
       got @ drop (length got) buf,
       f\<lparr>content := drop (length got) (content f),
         eof_ind := eof_ind f \<or> length got < length buf\<rparr>))"

text \<open>
  \<^verbatim>\<open>fprintf(out, "%s", buf_out)\<close>: appends the characters before the first NUL. An array
  without a NUL would be read past its end.
\<close>

definition fprintf_s :: "string \<Rightarrow> char list \<Rightarrow> error + string" where
  "fprintf_s out buf =
     (if NUL \<in> set buf then Inr (out @ takeWhile (\<lambda>c. c \<noteq> NUL) buf) else Inl OutOfBounds)"

text \<open>The local variables of \<^verbatim>\<open>base64_encode\<close> together with the two streams.\<close>

record enc_state =
  st_eof :: bool
  st_buf_in :: "u8 list"
  st_buf_out :: "char list"
  st_in :: FILE
  st_out :: string

text \<open>
  The body of the \<^verbatim>\<open>for\<close> loop, lines 68 to 80. The \<^verbatim>\<open>break\<close> is taken exactly when the
  body sets \<open>st_eof\<close>.
\<close>

definition encode_body :: "enc_state \<Rightarrow> error + enc_state" where
  "encode_body s =
     (case fread (st_buf_in s) (st_in s) of
        (nread, buf_in', in') \<Rightarrow>
          if nread = 0 then
            if feof in' then Inr (s\<lparr>st_eof := True, st_buf_in := buf_in', st_in := in'\<rparr>)
            else Inl AssertFailed
          else
            (case base64_encode_block (st_buf_out s) buf_in' nread of
               Inl e \<Rightarrow> Inl e
             | Inr buf_out' \<Rightarrow>
                 (case fprintf_s (st_out s) buf_out' of
                    Inl e \<Rightarrow> Inl e
                  | Inr out' \<Rightarrow>
                      Inr (s\<lparr>st_buf_in := buf_in', st_buf_out := buf_out',
                             st_in := in', st_out := out'\<rparr>))))"

text \<open>Line 67: \<^verbatim>\<open>for (size_t i = 0; i < 19 && !eof; ++i) { ... }\<close>.\<close>

function encode_for :: "nat \<Rightarrow> enc_state \<Rightarrow> error + enc_state" where
  "encode_for i s =
     (if i < 19 \<and> \<not> st_eof s then
        (case encode_body s of
           Inl e \<Rightarrow> Inl e
         | Inr s' \<Rightarrow> if st_eof s' then Inr s' else encode_for (i + 1) s')
      else Inr s)"
  by pat_completeness auto
termination
  by (relation "measure (\<lambda>(i, s). 19 - i)") auto

declare encode_for.simps [simp del]

text \<open>
  Line 66: \<^verbatim>\<open>while (!eof) { for ... ; fprintf(out, "\r\n"); }\<close>. Each pass either sets
  \<open>st_eof\<close> or takes bytes from the stream, so the loop ends.
\<close>

function encode_while :: "enc_state \<Rightarrow> error + enc_state" where
  "encode_while s =
     (if \<not> st_eof s then
        (case encode_for 0 s of
           Inl e \<Rightarrow> Inl e
         | Inr s' \<Rightarrow> encode_while (s'\<lparr>st_out := st_out s' @ CRLF\<rparr>))
      else Inr s)"
  by pat_completeness auto
termination
proof (relation "measure (\<lambda>s. if st_eof s then 0 else Suc (length (content (st_in s))))")
  show "wf (measure (\<lambda>s. if st_eof s then 0 else Suc (length (content (st_in s)))))"
    by simp
next
  fix s :: enc_state and s' :: enc_state
  assume live: "\<not> st_eof s" and run: "encode_for 0 s = Inr s'"
  have body: "st_eof t' \<or> length (content (st_in t')) < length (content (st_in t))"
    if "encode_body t = Inr t'" for t t'
    using that
    by (auto simp: encode_body_def fread_def Let_def split: if_splits sum.splits)
  have mono: "length (content (st_in t')) \<le> length (content (st_in t))"
    if "encode_for i t = Inr t'" for i t t'
    using that
  proof (induction i t rule: encode_for.induct)
    case (1 i t)
    show ?case
    proof (cases "i < 19 \<and> \<not> st_eof t")
      case False
      with "1.prems" show ?thesis by (simp add: encode_for.simps)
    next
      case True
      then obtain t1 where t1: "encode_body t = Inr t1"
        using "1.prems" by (auto simp: encode_for.simps split: sum.splits)
      have le1: "length (content (st_in t1)) \<le> length (content (st_in t))"
        using t1 by (auto simp: encode_body_def fread_def Let_def split: if_splits sum.splits)
      show ?thesis
      proof (cases "st_eof t1")
        case True
        with \<open>i < 19 \<and> \<not> st_eof t\<close> t1 "1.prems" have "t' = t1"
          by (simp add: encode_for.simps)
        with le1 show ?thesis by simp
      next
        case False
        with \<open>i < 19 \<and> \<not> st_eof t\<close> t1 "1.prems" have "encode_for (i + 1) t1 = Inr t'"
          by (simp add: encode_for.simps)
        with "1.IH" \<open>i < 19 \<and> \<not> st_eof t\<close> t1 False
        have "length (content (st_in t')) \<le> length (content (st_in t1))" by simp
        with le1 show ?thesis by simp
      qed
    qed
  qed
  obtain s1 where s1: "encode_body s = Inr s1"
    using live run by (auto simp: encode_for.simps split: sum.splits)
  have "st_eof s' \<or> length (content (st_in s')) < length (content (st_in s))"
  proof (cases "st_eof s1")
    case True
    with live s1 run have "s' = s1" by (simp add: encode_for.simps)
    with True show ?thesis by simp
  next
    case False
    with live s1 run have "encode_for (0 + 1) s1 = Inr s'" by (simp add: encode_for.simps)
    from mono [OF this] body [OF s1] False show ?thesis by simp
  qed
  then show "(s'\<lparr>st_out := st_out s' @ CRLF\<rparr>, s)
      \<in> measure (\<lambda>s. if st_eof s then 0 else Suc (length (content (st_in s))))"
    using live by auto
qed

declare encode_while.simps [simp del]

text \<open>
  \<^verbatim>\<open>void base64_encode(FILE *out, FILE *in)\<close>. The sink is the text written to it so
  far. \<^verbatim>\<open>buf_in\<close> is declared without an initialiser, so what it holds at first is a
  parameter; \<^verbatim>\<open>buf_out\<close> is \<^verbatim>\<open>char buf_out[4 + 1] = {0}\<close>; \<^verbatim>\<open>eof\<close> starts as
  \<^verbatim>\<open>feof(in)\<close>.
\<close>

definition base64_encode :: "u8 list \<Rightarrow> string \<Rightarrow> FILE \<Rightarrow> error + string" where
  "base64_encode buf_in0 out inp =
     (case encode_while \<lparr>st_eof = feof inp, st_buf_in = buf_in0,
                         st_buf_out = replicate (4 + 1) NUL, st_in = inp, st_out = out\<rparr> of
        Inl e \<Rightarrow> Inl e
      | Inr s \<Rightarrow> Inr (st_out s))"

section \<open>Reference notions the properties are stated with\<close>

text \<open>
  The 24-bit value of a block in the words of the specification: byte 0 in the most
  significant 8 bits, byte 1 in the next 8, byte 2 in the least significant 8, absent
  trailing bytes taken as 0.
\<close>

fun be24 :: "u8 list \<Rightarrow> nat" where
  "be24 [] = 0"
| "be24 [a] = unat a * 2 ^ 16"
| "be24 [a, b] = unat a * 2 ^ 16 + unat b * 2 ^ 8"
| "be24 (a # b # c # _) = unat a * 2 ^ 16 + unat b * 2 ^ 8 + unat c"

text \<open>The \<open>i\<close>-th 6-bit group of a 24-bit value, counted from the most significant end.\<close>

definition sextet :: "nat \<Rightarrow> nat \<Rightarrow> nat" where
  "sextet n i = (n div 2 ^ (6 * (3 - i))) mod 64"

text \<open>The four characters of a block of one to three bytes.\<close>

definition block_text :: "u8 list \<Rightarrow> string" where
  "block_text bs =
     map (\<lambda>i. base64_table ! sextet (be24 bs) i) [0..<len_out_of (length bs)]
       @ replicate (4 - len_out_of (length bs)) (CHR ''='')"

text \<open>A byte sequence cut into blocks of three bytes, the last one possibly shorter.\<close>

fun chunk3 :: "u8 list \<Rightarrow> u8 list list" where
  "chunk3 [] = []"
| "chunk3 [a] = [[a]]"
| "chunk3 [a, b] = [[a, b]]"
| "chunk3 (a # b # c # rest) = [a, b, c] # chunk3 rest"

definition blocks_text :: "u8 list \<Rightarrow> string" where
  "blocks_text bs = concat (map block_text (chunk3 bs))"

text \<open>
  The text of a whole stream: 19 blocks (57 bytes) and a CRLF per pass of the outer loop;
  the last pass is the one that meets the end of the stream before its 19th block is
  complete, and it ends with a CRLF as well.
\<close>

function lines_text :: "u8 list \<Rightarrow> string" where
  "lines_text bs =
     (if length bs < 55 then blocks_text bs @ CRLF
      else blocks_text (take 57 bs) @ CRLF @ lines_text (drop 57 bs))"
  by pat_completeness auto
termination
  by (relation "measure length") auto

declare lines_text.simps [simp del]

text \<open>
  What holds of the driver's state whenever the loop body starts: the two arrays have
  their declared sizes, the fifth character of \<open>buf_out\<close> is the NUL it was initialised
  with, and a stream whose end-of-file indicator is set has nothing left to read.
\<close>

definition driver_ok :: "enc_state \<Rightarrow> bool" where
  "driver_ok s \<longleftrightarrow>
     length (st_buf_in s) = 3 \<and> length (st_buf_out s) = 5 \<and> st_buf_out s ! 4 = NUL
     \<and> (eof_ind (st_in s) \<longrightarrow> content (st_in s) = [])"

text \<open>
  A text that is exactly 76 characters followed by one CRLF, with no line break among the
  76 characters and nothing after the CRLF.
\<close>

definition one_line_76 :: "string \<Rightarrow> bool" where
  "one_line_76 t \<longleftrightarrow>
     length t = 78 \<and> drop 76 t = CRLF
     \<and> CHR 0x0D \<notin> set (take 76 t) \<and> CHR 0x0A \<notin> set (take 76 t)"

subsection \<open>A reference decoder\<close>

text \<open>
  The repository has no decoder. The round trip is stated against the decoding of
  RFC 4648, section 4, over the same alphabet: four characters give a 24-bit value and
  three bytes; a final group \<^verbatim>\<open>xx==\<close> gives one byte and a final group \<^verbatim>\<open>xxx=\<close> two, and
  the bits of such a group that belong to no byte must be zero.
\<close>

fun index_of :: "'a \<Rightarrow> 'a list \<Rightarrow> nat option" where
  "index_of c [] = None"
| "index_of c (x # xs) = (if c = x then Some 0 else map_option Suc (index_of c xs))"

definition ref_value :: "char \<Rightarrow> nat option" where
  "ref_value c = index_of c (take 64 base64_table)"

definition ref_bytes :: "nat \<Rightarrow> u8 list" where
  "ref_bytes n = [of_nat (n div 2 ^ 16 mod 256), of_nat (n div 2 ^ 8 mod 256), of_nat (n mod 256)]"

definition ref_group :: "nat \<Rightarrow> char list \<Rightarrow> u8 list option" where
  "ref_group k cs =
     (case those (map ref_value cs) of
        None \<Rightarrow> None
      | Some vs \<Rightarrow>
          let n = foldl (\<lambda>n v. n * 64 + v) 0 vs * 64 ^ (4 - length cs) in
          if n mod 256 ^ (3 - k) = 0 then Some (take k (ref_bytes n)) else None)"

fun ref_base64_decode :: "string \<Rightarrow> u8 list option" where
  "ref_base64_decode [] = Some []"
| "ref_base64_decode [a, b, c, d] =
     (if c = CHR ''='' \<and> d = CHR ''='' then ref_group 1 [a, b]
      else if d = CHR ''='' then ref_group 2 [a, b, c]
      else ref_group 3 [a, b, c, d])"
| "ref_base64_decode (a # b # c # d # rest) =
     (case ref_group 3 [a, b, c, d] of
        None \<Rightarrow> None
      | Some bs \<Rightarrow> map_option ((@) bs) (ref_base64_decode rest))"
| "ref_base64_decode _ = None"

text \<open>Removing every CRLF pair from a text.\<close>

fun strip_crlf :: "string \<Rightarrow> string" where
  "strip_crlf (c # d # rest) =
     (if c = CHR 0x0D \<and> d = CHR 0x0A then strip_crlf rest else c # strip_crlf (d # rest))"
| "strip_crlf cs = cs"

section \<open>Auxiliary facts\<close>

subsection \<open>Arrays of known size\<close>

lemma length3E: "length xs = 3 \<Longrightarrow> \<exists>a b c. xs = [a, b, c]"
  by (cases xs; simp; cases "tl xs"; simp; cases "tl (tl xs)"; auto)

lemma length5E: "length xs = 5 \<Longrightarrow> \<exists>a b c d e. xs = [a, b, c, d, e]"
proof -
  assume len: "length xs = 5"
  then obtain a ys where xs: "xs = a # ys" and "length ys = 4"
    by (cases xs) auto
  then obtain b zs where ys: "ys = b # zs" and "length zs = 3"
    by (cases ys) auto
  with length3E obtain c d e where "zs = [c, d, e]" by blast
  with xs ys show ?thesis by simp
qed

subsection \<open>Words\<close>

lemma unat_u8_lt: "unat (a :: u8) < 256"
  using unsigned_less [of a, where 'a = nat] by simp

lemma unat_ucast_u8: "unat (ucast (a :: u8) :: u32) = unat a"
  using unat_u8_lt [of a] by (simp add: unsigned_ucast_eq take_bit_nat_eq_self)

lemma unat_pack3:
  "unat (push_bit 16 (ucast (a :: u8)) OR push_bit 8 (ucast (b :: u8)) OR (ucast (c :: u8)) :: u32)
     = unat a * 65536 + unat b * 256 + unat c"
proof -
  let ?A = "push_bit 16 (ucast a) :: u32"
  let ?B = "push_bit 8 (ucast b) :: u32"
  let ?C = "ucast c :: u32"
  have bc: "?B + ?C = ?B OR ?C"
    by (rule disjunctive_add) (auto simp: bit_simps dest: bit_imp_le_length)
  have abc: "?A + (?B OR ?C) = ?A OR (?B OR ?C)"
    by (rule disjunctive_add) (auto simp: bit_simps dest: bit_imp_le_length)
  have ua: "unat ?A = unat a * 65536"
    using unat_u8_lt [of a]
    by (simp add: push_bit_eq_mult unat_word_ariths unat_ucast_u8)
  have ub: "unat ?B = unat b * 256"
    using unat_u8_lt [of b]
    by (simp add: push_bit_eq_mult unat_word_ariths unat_ucast_u8)
  have uc: "unat ?C = unat c"
    by (rule unat_ucast_u8)
  have "unat (?A OR ?B OR ?C) = unat (?A + (?B + ?C))"
    by (simp add: bc abc or.assoc)
  also have "\<dots> = unat a * 65536 + unat b * 256 + unat c"
    using unat_u8_lt [of a] unat_u8_lt [of b] unat_u8_lt [of c]
    by (simp add: unat_word_ariths ua ub uc)
  finally show ?thesis .
qed

lemma unat_pack2:
  "unat (push_bit 16 (ucast (a :: u8)) OR push_bit 8 (ucast (b :: u8)) :: u32)
     = unat a * 65536 + unat b * 256"
  using unat_pack3 [of a b 0] by simp

lemma unat_pack1: "unat (push_bit 16 (ucast (a :: u8)) :: u32) = unat a * 65536"
  using unat_pack3 [of a 0 0] by simp

lemma unat_sextet:
  "unat (drop_bit k ((w :: u32) AND push_bit k (mask 6))) = (unat w div 2 ^ k) mod 64"
proof -
  have "drop_bit k (w AND push_bit k (mask 6)) = take_bit 6 (drop_bit k w)"
    by (rule bit_word_eqI) (auto simp: bit_simps dest: bit_imp_le_length)
  then have "unat (drop_bit k (w AND push_bit k (mask 6))) = take_bit 6 (drop_bit k (unat w))"
    by (simp only: unsigned_take_bit_eq unat_drop_bit_eq)
  then show ?thesis
    by (simp add: take_bit_eq_mod drop_bit_eq_div)
qed

lemma msk_at_eq: "i < 4 \<Longrightarrow> msk_at i = push_bit (6 * (3 - i)) (mask 6)"
proof -
  assume "i < 4"
  then have i: "i = 0 \<or> i = Suc 0 \<or> i = Suc (Suc 0) \<or> i = Suc (Suc (Suc 0))" by arith
  have m0: "msk_at 0 = 16515072" by simp
  have m1: "msk_at (Suc 0) = 258048" by (simp only: msk_at.simps m0) simp
  have m2: "msk_at (Suc (Suc 0)) = 4032" by (simp only: msk_at.simps m1) simp
  have m3: "msk_at (Suc (Suc (Suc 0))) = 63" by (simp only: msk_at.simps m2) simp
  have p: "push_bit 18 (mask 6) = (16515072 :: u32)" "push_bit 12 (mask 6) = (258048 :: u32)"
    "push_bit 6 (mask 6) = (4032 :: u32)" "push_bit 0 (mask 6) = (63 :: u32)"
    by (simp_all add: mask_eq_exp_minus_1)
  from i show ?thesis
    by (elim disjE) (simp_all only: m0 m1 m2 m3, simp_all add: p mask_eq_exp_minus_1)
qed

lemma table_index_sextet: "i < 4 \<Longrightarrow> table_index buf (msk_at i) i = sextet (unat buf) i"
proof -
  assume i: "i < 4"
  then have "6 * (4 - i - 1) = 6 * (3 - i)" by simp
  with i show ?thesis
    by (simp only: table_index_def msk_at_eq sextet_def unat_sextet)
qed

lemma sextet_lt: "sextet n i < 64"
  by (simp add: sextet_def)

subsection \<open>The three loops of the block transform\<close>

lemma pack_run:
  assumes "length buf_in = 3" and "1 \<le> len_in" and "len_in \<le> 3"
  shows "\<exists>buf. encode_block_pack buf_in len_in 0 0 = Inr buf
           \<and> unat buf = be24 (take len_in buf_in)"
proof -
  from assms(1) obtain a b c where bi: "buf_in = [a, b, c]"
    using length3E by blast
  from assms(2,3) have "len_in = 1 \<or> len_in = 2 \<or> len_in = 3" by arith
  then show ?thesis
    by (auto simp: bi encode_block_pack.simps unat_pack1 unat_pack2 unat_pack3 or.assoc)
qed

lemma symbols_run:
  assumes "length buf_out = 5" and "len_out \<le> 4"
  shows "encode_block_symbols buf_out buf len_out 0 (msk_at 0)
           = Inr (map (\<lambda>i. base64_table ! table_index buf (msk_at i) i) [0..<len_out]
                    @ drop len_out buf_out)"
proof -
  from assms(1) obtain a b c d e where bo: "buf_out = [a, b, c, d, e]"
    using length5E by blast
  have len_tab: "length base64_table = 65"
    by (simp add: base64_table_def)
  have idx: "table_index buf (msk_at i) i < 65" if "i < 4" for i
    using sextet_lt [of "unat buf" i] that by (simp add: table_index_sextet)
  have step: "encode_block_symbols xs buf len_out i (msk_at i) =
      (if i < len_out
       then encode_block_symbols (xs[i := base64_table ! table_index buf (msk_at i) i])
              buf len_out (Suc i) (msk_at (Suc i))
       else Inr xs)" if "length xs = 5" and "i \<le> 4" for xs i
    using that assms(2) idx [of i]
    by (subst encode_block_symbols.simps) (auto simp: Let_def len_tab)
  from assms(2) have "len_out = 0 \<or> len_out = 1 \<or> len_out = 2 \<or> len_out = 3 \<or> len_out = 4"
    by arith
  then show ?thesis
    by (auto simp: bo step upt_conv_Cons simp del: msk_at.simps upt_Suc)
qed

lemma pad_run:
  assumes "length buf_out = 5" and "n \<le> 4"
  shows "encode_block_pad buf_out n
           = Inr (take n buf_out @ replicate (4 - n) (CHR ''='') @ drop 4 buf_out)"
proof -
  from assms(1) obtain a b c d e where bo: "buf_out = [a, b, c, d, e]"
    using length5E by blast
  from assms(2) have "n = 0 \<or> n = 1 \<or> n = 2 \<or> n = 3 \<or> n = 4"
    by arith
  then show ?thesis
    by (auto simp: bo encode_block_pad.simps eval_nat_numeral)
qed

lemma block_run:
  assumes "length buf_out = 5" and "length buf_in = 3" and "1 \<le> len_in" and "len_in \<le> 3"
  shows "base64_encode_block buf_out buf_in len_in
           = Inr (block_text (take len_in buf_in) @ drop 4 buf_out)"
proof -
  from pack_run [OF assms(2-4)] obtain buf
    where pack: "encode_block_pack buf_in len_in 0 0 = Inr buf"
      and val: "unat buf = be24 (take len_in buf_in)" by blast
  let ?n = "len_out_of len_in"
  from assms(3,4) have n4: "?n \<le> 4" and n0: "0 < ?n"
    by (simp_all add: len_out_of_def)
  let ?syms = "map (\<lambda>i. base64_table ! table_index buf (msk_at i) i) [0..<?n]"
  have sym: "encode_block_symbols buf_out buf ?n 0 16515072
      = Inr (?syms @ drop ?n buf_out)"
    using symbols_run [OF assms(1) n4, of buf] by simp
  have len': "length (?syms @ drop ?n buf_out) = 5"
    using assms(1) n4 by simp
  have syms_eq: "?syms = map (\<lambda>i. base64_table ! sextet (be24 (take len_in buf_in)) i) [0..<?n]"
    using n4 by (simp add: table_index_sextet val)
  have "base64_encode_block buf_out buf_in len_in
      = encode_block_pad (?syms @ drop ?n buf_out) ?n"
    by (simp add: base64_encode_block_def Let_def pack sym)
  also have "\<dots> = Inr (take ?n (?syms @ drop ?n buf_out) @ replicate (4 - ?n) (CHR ''='')
      @ drop 4 (?syms @ drop ?n buf_out))"
    by (rule pad_run [OF len' n4])
  also have "take ?n (?syms @ drop ?n buf_out) = ?syms"
    by simp
  also have "drop 4 (?syms @ drop ?n buf_out) = drop 4 buf_out"
    using n4 assms(1) by simp
  finally show ?thesis
    using assms(2,4) by (simp add: block_text_def syms_eq)
qed

subsection \<open>The symbol table\<close>

lemma table_nth_alphabet: "k < 64 \<Longrightarrow> base64_table ! k \<in> set (take 64 base64_table)"
proof -
  assume k: "k < 64"
  have "length (take 64 base64_table) = 64" by (simp add: base64_table_def)
  with k have "take 64 base64_table ! k \<in> set (take 64 base64_table)"
    by (intro nth_mem) simp
  with k show ?thesis by simp
qed

lemma alphabet_plain:
  "c \<in> set (take 64 base64_table) \<Longrightarrow>
     c \<noteq> NUL \<and> c \<noteq> CHR 0x0D \<and> c \<noteq> CHR 0x0A \<and> c \<noteq> CHR ''=''"
  by (auto simp: base64_table_def NUL_def)

lemma alphabet_distinct: "distinct (take 64 base64_table)"
  by (simp add: base64_table_def)

lemma index_of_nth: "distinct xs \<Longrightarrow> k < length xs \<Longrightarrow> index_of (xs ! k) xs = Some k"
proof (induction xs arbitrary: k)
  case Nil
  then show ?case by simp
next
  case (Cons x xs)
  show ?case
  proof (cases k)
    case 0
    then show ?thesis by simp
  next
    case (Suc j)
    with Cons.prems have "xs ! j \<noteq> x" and "index_of (xs ! j) xs = Some j"
      using Cons.IH [of j] by auto
    with Suc show ?thesis by simp
  qed
qed

lemma ref_value_table: "k < 64 \<Longrightarrow> ref_value (base64_table ! k) = Some k"
proof -
  assume k: "k < 64"
  have "length (take 64 base64_table) = 64" by (simp add: base64_table_def)
  with k have "index_of (take 64 base64_table ! k) (take 64 base64_table) = Some k"
    by (intro index_of_nth alphabet_distinct) simp
  with k show ?thesis by (simp add: ref_value_def)
qed

subsection \<open>The text of a block\<close>

lemma len_out_of_small: "len_out_of 1 = 2" "len_out_of 2 = 3" "len_out_of 3 = 4"
  by (simp_all add: len_out_of_def)

lemma length_block_text:
  "1 \<le> length bs \<Longrightarrow> length bs \<le> 3 \<Longrightarrow> length (block_text bs) = 4"
  by (simp add: block_text_def len_out_of_def)

lemma set_block_text:
  "set (block_text bs) \<subseteq> set (take 64 base64_table) \<union> {CHR ''=''}"
  by (auto simp: block_text_def sextet_lt table_nth_alphabet)

lemma block_text_plain:
  "c \<in> set (block_text bs) \<Longrightarrow> c \<noteq> NUL \<and> c \<noteq> CHR 0x0D \<and> c \<noteq> CHR 0x0A"
proof -
  assume "c \<in> set (block_text bs)"
  with set_block_text have "c \<in> set (take 64 base64_table) \<or> c = CHR ''=''" by blast
  then show ?thesis
    using alphabet_plain [of c] by (auto simp: NUL_def)
qed

lemma chunk3_step: "bs \<noteq> [] \<Longrightarrow> chunk3 bs = take 3 bs # chunk3 (drop 3 bs)"
  by (induction bs rule: chunk3.induct) simp_all

lemma blocks_text_step:
  "bs \<noteq> [] \<Longrightarrow> blocks_text bs = block_text (take 3 bs) @ blocks_text (drop 3 bs)"
  by (simp add: blocks_text_def chunk3_step [of bs])

lemma blocks_text_Nil: "blocks_text [] = []"
  by (simp add: blocks_text_def)

subsection \<open>The driver\<close>

lemma fprintf_block:
  assumes "length q = 4" and "\<And>c. c \<in> set q \<Longrightarrow> c \<noteq> NUL" and "rest = NUL # after"
  shows "fprintf_s out (q @ rest) = Inr (out @ q)"
proof -
  have "takeWhile (\<lambda>c. c \<noteq> NUL) (q @ rest) = q"
    using assms(2,3) by simp 
  then show ?thesis
    using assms(3) by (simp add: fprintf_s_def)
qed

lemma drop4_of5: "length xs = 5 \<Longrightarrow> drop 4 xs = [xs ! 4]"
proof -
  assume "length xs = 5"
  with length5E obtain a b c d e where "xs = [a, b, c, d, e]" by blast
  then show ?thesis by simp
qed

lemma body_at_end:
  assumes "driver_ok s" and "content (st_in s) = []"
  shows "encode_body s = Inr (s\<lparr>st_eof := True, st_in := \<lparr>content = [], eof_ind = True\<rparr>\<rparr>)"
  using assms
  by (simp add: encode_body_def fread_def feof_def driver_ok_def Let_def)

lemma body_block:
  assumes "driver_ok s" and "content (st_in s) \<noteq> []"
  shows "encode_body s =
     Inr (s\<lparr>st_buf_in := take 3 (content (st_in s))
                @ drop (length (take 3 (content (st_in s)))) (st_buf_in s),
            st_buf_out := block_text (take 3 (content (st_in s))) @ [NUL],
            st_in := \<lparr>content = drop 3 (content (st_in s)),
                      eof_ind = (length (content (st_in s)) < 3)\<rparr>,
            st_out := st_out s @ block_text (take 3 (content (st_in s)))\<rparr>)"
proof -
  let ?bs = "content (st_in s)"
  let ?got = "take 3 ?bs"
  let ?buf = "?got @ drop (length ?got) (st_buf_in s)"
  from assms have ok: "length (st_buf_in s) = 3" "length (st_buf_out s) = 5"
    "st_buf_out s ! 4 = NUL" "\<not> eof_ind (st_in s)"
    by (auto simp: driver_ok_def)
  from assms(2) have got: "1 \<le> length ?got" "length ?got \<le> 3"
    by (cases ?bs) simp_all
  have rd: "fread (st_buf_in s) (st_in s)
      = (length ?got, ?buf, (st_in s)\<lparr>content := drop (length ?got) ?bs,
            eof_ind := length ?got < 3\<rparr>)"
    using ok by (simp add: fread_def Let_def)
  have dr: "drop (length ?got) ?bs = drop 3 ?bs"
    by (simp add: min_def)
  have lt: "(length ?got < 3) = (length ?bs < 3)"
    by (simp add: min_def)
  have lenbuf: "length ?buf = 3"
    using ok(1) got by simp
  have tk: "take (length ?got) ?buf = ?got"
    by (simp add: min_def)
  have blk: "base64_encode_block (st_buf_out s) ?buf (length ?got)
      = Inr (block_text ?got @ [NUL])"
    using block_run [OF ok(2) lenbuf got] ok(2,3) by (simp only: tk drop4_of5)
  have pr: "fprintf_s (st_out s) (block_text ?got @ [NUL]) = Inr (st_out s @ block_text ?got)"
  proof (rule fprintf_block [where after = "[]"])
    show "length (block_text ?got) = 4"
      using got by (rule length_block_text)
    show "c \<noteq> NUL" if "c \<in> set (block_text ?got)" for c
      using that block_text_plain by blast
  qed simp
  have nz: "length ?got \<noteq> 0"
    using assms(2) by simp
  show ?thesis
    unfolding encode_body_def rd
    using nz by (simp add: blk pr dr lt del: length_take)
qed

lemma for_run:
  assumes "driver_ok s" and "\<not> st_eof s" and "i + k = 19"
  shows "\<exists>s'. encode_for i s = Inr s' \<and> driver_ok s'
           \<and> st_out s' = st_out s @ blocks_text (take (3 * k) (content (st_in s)))
           \<and> content (st_in s') = drop (3 * k) (content (st_in s))
           \<and> st_eof s' = (length (content (st_in s)) + 2 < 3 * k)"
  using assms
proof (induction k arbitrary: i s)
  case 0
  then show ?case
    by (simp add: encode_for.simps blocks_text_Nil)
next
  case (Suc k)
  let ?bs = "content (st_in s)"
  from Suc.prems have i: "i < 19" by simp
  show ?case
  proof (cases "?bs = []")
    case True
    let ?s1 = "s\<lparr>st_eof := True, st_in := \<lparr>content = [], eof_ind = True\<rparr>\<rparr>"
    have "encode_body s = Inr ?s1"
      using Suc.prems(1) True by (rule body_at_end)
    with i Suc.prems(2) have "encode_for i s = Inr ?s1"
      by (simp add: encode_for.simps)
    moreover have "driver_ok ?s1"
      using Suc.prems(1) by (simp add: driver_ok_def)
    ultimately show ?thesis
      using True by (simp add: blocks_text_Nil)
  next
    case False
    let ?s1 = "s\<lparr>st_buf_in := take 3 ?bs @ drop (length (take 3 ?bs)) (st_buf_in s),
            st_buf_out := block_text (take 3 ?bs) @ [NUL],
            st_in := \<lparr>content = drop 3 ?bs, eof_ind = (length ?bs < 3)\<rparr>,
            st_out := st_out s @ block_text (take 3 ?bs)\<rparr>"
    have body: "encode_body s = Inr ?s1"
      using Suc.prems(1) False by (rule body_block)
    have live1: "\<not> st_eof ?s1"
      using Suc.prems(2) by simp
    have l4: "length (block_text (take 3 ?bs)) = 4"
      using False by (intro length_block_text) (cases ?bs, simp_all)
    have ok1: "driver_ok ?s1"
      using Suc.prems(1) False l4 by (auto simp: driver_ok_def nth_append)
    from Suc.prems(3) have "Suc i + k = 19" by simp
    from Suc.IH [OF ok1 live1 this] obtain s' where
      run: "encode_for (Suc i) ?s1 = Inr s'" and ok': "driver_ok s'"
      and out: "st_out s' = st_out ?s1 @ blocks_text (take (3 * k) (content (st_in ?s1)))"
      and rest: "content (st_in s') = drop (3 * k) (content (st_in ?s1))"
      and eof: "st_eof s' = (length (content (st_in ?s1)) + 2 < 3 * k)"
      by blast
    have "encode_for i s = Inr s'"
      using i Suc.prems(2) body live1 run by (simp add: encode_for.simps)
    moreover have "blocks_text (take (3 * Suc k) ?bs)
        = block_text (take 3 ?bs) @ blocks_text (take (3 * k) (drop 3 ?bs))"
    proof -
      have ne: "take (3 * Suc k) ?bs \<noteq> []" using False by simp
      have "take 3 (take (3 * Suc k) ?bs) = take 3 ?bs" by (simp add: min_def)
      moreover have "drop 3 (take (3 * Suc k) ?bs) = take (3 * k) (drop 3 ?bs)"
        by (simp add: drop_take)
      ultimately show ?thesis
        using blocks_text_step [OF ne] by simp
    qed
    moreover have "(length (drop 3 ?bs) + 2 < 3 * k) = (length ?bs + 2 < 3 * Suc k)"
    proof -
      have "0 < length ?bs" using False by simp
      then have "(length ?bs - 3 + 2 < 3 * k) = (length ?bs + 2 < 3 * Suc k)"
        by presburger
      then show ?thesis by simp
    qed
    ultimately show ?thesis
      using ok' out rest eof by (simp add: add.commute)
  qed
qed

lemma while_run:
  assumes "driver_ok s" and "\<not> st_eof s" and "content (st_in s) = bs"
  shows "\<exists>s'. encode_while s = Inr s' \<and> st_out s' = st_out s @ lines_text bs"
  using assms
proof (induction bs arbitrary: s rule: lines_text.induct)
  case (1 bs)
  from for_run [OF "1.prems"(1,2), of 0 19] "1.prems"(3) obtain s1 where
    run: "encode_for 0 s = Inr s1" and ok1: "driver_ok s1"
    and out: "st_out s1 = st_out s @ blocks_text (take 57 bs)"
    and rest: "content (st_in s1) = drop 57 bs"
    and eof: "st_eof s1 = (length bs + 2 < 57)"
    by auto
  let ?s2 = "s1\<lparr>st_out := st_out s1 @ CRLF\<rparr>"
  have step: "encode_while s = encode_while ?s2"
    using "1.prems"(2) run by (subst encode_while.simps) simp
  show ?case
  proof (cases "length bs < 55")
    case True
    with eof have "st_eof ?s2" by simp
    then have "encode_while ?s2 = Inr ?s2"
      by (subst encode_while.simps) simp
    with step out True show ?thesis
      by (subst lines_text.simps) simp
  next
    case False
    with eof have live2: "\<not> st_eof ?s2" by simp
    have ok2: "driver_ok ?s2" using ok1 by (simp add: driver_ok_def)
    have "content (st_in ?s2) = drop 57 bs" using rest by simp
    from "1.IH" [OF False ok2 live2 this] obtain s' where
      "encode_while ?s2 = Inr s'" and "st_out s' = st_out ?s2 @ lines_text (drop 57 bs)"
      by blast
    with step out False show ?thesis
      by (subst lines_text.simps) simp
  qed
qed

lemma encode_run:
  assumes "length buf_in0 = 3"
  shows "base64_encode buf_in0 out (fopen bs) = Inr (out @ lines_text bs)"
proof -
  let ?s = "\<lparr>st_eof = feof (fopen bs), st_buf_in = buf_in0,
             st_buf_out = replicate (4 + 1) NUL, st_in = fopen bs, st_out = out\<rparr>"
  have "driver_ok ?s"
    using assms by (simp add: driver_ok_def fopen_def)
  moreover have "\<not> st_eof ?s"
    by (simp add: feof_def fopen_def)
  moreover have "content (st_in ?s) = bs"
    by (simp add: fopen_def)
  ultimately obtain s' where "encode_while ?s = Inr s'" and "st_out s' = st_out ?s @ lines_text bs"
    using while_run by blast
  then show ?thesis
    by (simp add: base64_encode_def)
qed

lemma replicate5: "replicate 5 x = [x, x, x, x, x]"
  by (simp add: numeral_eq_Suc)

lemma len_out_ceiling:
  "1 \<le> len_in \<Longrightarrow> len_in \<le> 3 \<Longrightarrow> int (len_out_of len_in) = \<lceil>8 * real len_in / 6\<rceil>"
proof -
  assume "1 \<le> len_in" and "len_in \<le> 3"
  then have "len_in = 1 \<or> len_in = 2 \<or> len_in = 3" by arith
  then show ?thesis
    by (auto simp: len_out_of_def)
qed

lemma count_eq_block_text:
  assumes "1 \<le> length bs" and "length bs \<le> 3"
  shows "count_list (block_text bs) (CHR ''='') = 3 - length bs"
proof -
  have sym: "base64_table ! sextet n i \<noteq> CHR ''=''" for n i
    using alphabet_plain [OF table_nth_alphabet [OF sextet_lt [of n i]]] by simp
  have c1: "count_list (map (\<lambda>i. base64_table ! sextet n i) xs) (CHR ''='') = 0" for n xs
    by (induction xs) (simp_all add: sym)
  have c2: "count_list (replicate k c) c = k" for k and c :: char
    by (induction k) simp_all
  have "count_list (block_text bs) (CHR ''='') = 4 - len_out_of (length bs)"
    by (simp add: block_text_def c1 c2)
  also from assms have "\<dots> = 3 - length bs"
    by (simp add: len_out_of_def)
  finally show ?thesis .
qed

lemma block_text_nth:
  "i < len_out_of (length bs) \<Longrightarrow>
     (block_text bs @ rest) ! i = base64_table ! sextet (be24 bs) i"
  by (simp add: block_text_def nth_append)

lemma body_total:
  assumes "length (st_buf_in s) = 3" and "length (st_buf_out s) = 5"
    and "st_buf_out s ! 4 = NUL"
  shows "\<exists>s'. encode_body s = Inr s'
           \<and> length (st_buf_in s') = 3 \<and> length (st_buf_out s') = 5
           \<and> st_buf_out s' ! 4 = NUL
           \<and> st_buf_in s' = fst (snd (fread (st_buf_in s) (st_in s)))
           \<and> (if fst (fread (st_buf_in s) (st_in s)) = 0
               then st_buf_out s' = st_buf_out s \<and> st_out s' = st_out s
               else take 4 (st_buf_out s') = block_text (take 3 (content (st_in s)))
                 \<and> st_out s' = st_out s @ take 4 (st_buf_out s')
                 \<and> length (st_out s') = length (st_out s) + 4)"
proof (cases "eof_ind (st_in s) \<or> content (st_in s) = []")
  case True
  then have rd: "fread (st_buf_in s) (st_in s)
      = (0, st_buf_in s, (st_in s)\<lparr>eof_ind := True\<rparr>)"
    using assms(1) by (auto simp: fread_def Let_def)
  then have "encode_body s = Inr (s\<lparr>st_eof := True, st_in := (st_in s)\<lparr>eof_ind := True\<rparr>\<rparr>)"
    by (simp add: encode_body_def feof_def)
  with rd assms show ?thesis by simp
next
  case False
  let ?bs = "content (st_in s)"
  let ?got = "take 3 ?bs"
  let ?buf = "?got @ drop (length ?got) (st_buf_in s)"
  let ?in' = "(st_in s)\<lparr>content := drop (length ?got) ?bs, eof_ind := length ?got < 3\<rparr>"
  from False have got: "1 \<le> length ?got" "length ?got \<le> 3"
    by (cases ?bs, simp_all)
  have rd: "fread (st_buf_in s) (st_in s) = (length ?got, ?buf, ?in')"
    using False assms(1) by (simp add: fread_def Let_def)
  have lenbuf: "length ?buf = 3"
    using assms(1) got by simp
  have tk: "take (length ?got) ?buf = ?got"
    by (simp add: min_def)
  have blk: "base64_encode_block (st_buf_out s) ?buf (length ?got)
      = Inr (block_text ?got @ [NUL])"
    using block_run [OF assms(2) lenbuf got] assms(2,3) by (simp only: tk drop4_of5)
  have l4: "length (block_text ?got) = 4"
    using got by (rule length_block_text)
  have pr: "fprintf_s (st_out s) (block_text ?got @ [NUL]) = Inr (st_out s @ block_text ?got)"
  proof (rule fprintf_block [where after = "[]"])
    show "length (block_text ?got) = 4" by (rule l4)
    show "c \<noteq> NUL" if "c \<in> set (block_text ?got)" for c
      using that block_text_plain by blast
  qed simp
  have nz: "length ?got \<noteq> 0"
    using False by simp
  have "encode_body s = Inr (s\<lparr>st_buf_in := ?buf, st_buf_out := block_text ?got @ [NUL],
      st_in := ?in', st_out := st_out s @ block_text ?got\<rparr>)"
    unfolding encode_body_def rd
    using nz by (simp add: blk pr del: length_take)
  moreover have "(block_text ?got @ [NUL]) ! 4 = NUL"
    using l4 by (simp add: nth_append)
  ultimately show ?thesis
    using nz l4 lenbuf by (simp add: rd del: length_take)
qed

lemma length_blocks_text: "length (blocks_text bs) = 4 * ((length bs + 2) div 3)"
proof (induction bs rule: chunk3.induct)
  case 1
  show ?case by (simp add: blocks_text_Nil)
next
  case (2 a)
  show ?case by (simp add: blocks_text_def length_block_text)
next
  case (3 a b)
  show ?case by (simp add: blocks_text_def length_block_text)
next
  case (4 a b c rest)
  have "blocks_text (a # b # c # rest) = block_text [a, b, c] @ blocks_text rest"
    by (simp add: blocks_text_def)
  moreover have "(length (a # b # c # rest) + 2) div 3 = Suc ((length rest + 2) div 3)"
    by simp
  ultimately show ?case
    using 4 by (simp only: length_append length_block_text) (simp add: length_block_text)
qed

lemma blocks_text_plain:
  "c \<in> set (blocks_text bs) \<Longrightarrow> c \<noteq> NUL \<and> c \<noteq> CHR 0x0D \<and> c \<noteq> CHR 0x0A"
  using block_text_plain by (auto simp: blocks_text_def)

lemma blocks_text_take:
  "blocks_text (take (3 * k) bs) @ blocks_text (drop (3 * k) bs) = blocks_text bs"
proof (induction k arbitrary: bs)
  case 0
  show ?case by (simp add: blocks_text_Nil)
next
  case (Suc k)
  show ?case
  proof (cases "bs = []")
    case True
    then show ?thesis by (simp add: blocks_text_Nil)
  next
    case False
    then have ne: "take (3 * Suc k) bs \<noteq> []" by simp
    have t3: "take 3 (take (3 * Suc k) bs) = take 3 bs" by (simp add: min_def)
    have d3: "drop 3 (take (3 * Suc k) bs) = take (3 * k) (drop 3 bs)"
      by (simp add: drop_take)
    have "blocks_text (take (3 * Suc k) bs)
        = block_text (take 3 bs) @ blocks_text (take (3 * k) (drop 3 bs))"
      using blocks_text_step [OF ne] by (simp only: t3 d3)
    moreover have "drop (3 * Suc k) bs = drop (3 * k) (drop 3 bs)"
      by (simp add: add.commute)
    ultimately show ?thesis
      using Suc.IH [of "drop 3 bs"] blocks_text_step [OF False] by simp
  qed
qed

lemma lines_text_short: "length bs < 55 \<Longrightarrow> lines_text bs = blocks_text bs @ CRLF"
  by (subst lines_text.simps) simp

lemma lines_text_long:
  "\<not> length bs < 55 \<Longrightarrow>
     lines_text bs = blocks_text (take 57 bs) @ CRLF @ lines_text (drop 57 bs)"
  by (subst lines_text.simps) simp

lemma length_full_line: "\<not> length bs < 55 \<Longrightarrow> length (blocks_text (take 57 bs)) = 76"
proof -
  assume "\<not> length bs < 55"
  then have "(min (length bs) 57 + 2) div 3 = 19" by (simp add: min_def) arith
  then show ?thesis by (simp add: length_blocks_text)
qed

lemma length_last_line: "length bs < 55 \<Longrightarrow> length (blocks_text bs) < 76"
proof -
  assume "length bs < 55"
  then have "(length bs + 2) div 3 \<le> 18" by arith
  then show ?thesis by (simp add: length_blocks_text)
qed

lemma lines_text_lines:
  "\<exists>ls. lines_text bs = concat (map (\<lambda>l. l @ CRLF) ls) \<and> ls \<noteq> []
     \<and> (\<forall>l \<in> set ls. CHR 0x0D \<notin> set l \<and> CHR 0x0A \<notin> set l \<and> 4 dvd length l)
     \<and> (\<forall>l \<in> set (butlast ls). length l = 76) \<and> length (last ls) < 76"
proof (induction bs rule: lines_text.induct)
  case (1 bs)
  have plain: "CHR 0x0D \<notin> set (blocks_text xs) \<and> CHR 0x0A \<notin> set (blocks_text xs)
      \<and> 4 dvd length (blocks_text xs)" for xs
    using blocks_text_plain [of _ xs] by (auto simp: length_blocks_text)
  show ?case
  proof (cases "length bs < 55")
    case True
    have "lines_text bs = concat (map (\<lambda>l. l @ CRLF) [blocks_text bs])"
      using True by (simp add: lines_text_short)
    moreover have "length (last [blocks_text bs]) < 76"
      using True by (simp add: length_last_line)
    ultimately show ?thesis
      using plain [of bs] by (intro exI [of _ "[blocks_text bs]"]) simp
  next
    case False
    from "1.IH" [OF False] obtain ls where
      ls: "lines_text (drop 57 bs) = concat (map (\<lambda>l. l @ CRLF) ls)" "ls \<noteq> []"
        "\<forall>l \<in> set ls. CHR 0x0D \<notin> set l \<and> CHR 0x0A \<notin> set l \<and> 4 dvd length l"
        "\<forall>l \<in> set (butlast ls). length l = 76" "length (last ls) < 76"
      by blast
    let ?ls = "blocks_text (take 57 bs) # ls"
    have "lines_text bs = concat (map (\<lambda>l. l @ CRLF) ?ls)"
      using False ls(1) by (simp add: lines_text_long)
    moreover have "\<forall>l \<in> set (butlast ?ls). length l = 76"
      using ls(2,4) length_full_line [OF False] by simp
    moreover have "length (last ?ls) < 76"
      using ls(2,5) by simp
    moreover have "\<forall>l \<in> set ?ls. CHR 0x0D \<notin> set l \<and> CHR 0x0A \<notin> set l \<and> 4 dvd length l"
      using ls(3) plain [of "take 57 bs"] by simp
    ultimately show ?thesis
      by (intro exI [of _ ?ls]) simp
  qed
qed

lemma strip_crlf_line:
  "CHR 0x0D \<notin> set xs \<Longrightarrow> strip_crlf (xs @ CRLF @ ys) = xs @ strip_crlf ys"
proof (induction xs)
  case Nil
  show ?case by (simp add: CRLF_def)
next
  case (Cons x xs)
  obtain d rest where split: "xs @ CRLF @ ys = d # rest"
    by (cases "xs @ CRLF @ ys") (simp_all add: CRLF_def)
  from Cons.prems have "x \<noteq> CHR 0x0D" by auto
  then have "strip_crlf (x # d # rest) = x # strip_crlf (d # rest)" by simp
  with split Cons show ?case by simp
qed

lemma strip_crlf_lines_text: "strip_crlf (lines_text bs) = blocks_text bs"
proof (induction bs rule: lines_text.induct)
  case (1 bs)
  have cr: "CHR 0x0D \<notin> set (blocks_text xs)" for xs
    using blocks_text_plain [of _ xs] by auto
  show ?case
  proof (cases "length bs < 55")
    case True
    then show ?thesis
      using strip_crlf_line [OF cr, of bs "[]"] by (simp add: lines_text_short)
  next
    case False
    have "strip_crlf (lines_text bs) = blocks_text (take 57 bs) @ blocks_text (drop 57 bs)"
      using strip_crlf_line [OF cr, of "take 57 bs" "lines_text (drop 57 bs)"] "1.IH" [OF False]
      by (simp add: lines_text_long [OF False])
    then show ?thesis
      using blocks_text_take [of 19 bs] by simp
  qed
qed

lemma sextets_value:
  assumes "n < 2 ^ 24"
  shows "((sextet n 0 * 64 + sextet n 1) * 64 + sextet n 2) * 64 + sextet n 3 = n"
proof -
  define q1 where "q1 = n div 64"
  define q2 where "q2 = q1 div 64"
  define q3 where "q3 = q2 div 64"
  have s3: "sextet n 3 = n mod 64"
    by (simp add: sextet_def)
  have s2: "sextet n 2 = q1 mod 64"
    by (simp add: sextet_def q1_def)
  have "n div 4096 = q2"
    unfolding q2_def q1_def by (simp add: div_mult2_eq [symmetric])
  then have s1: "sextet n 1 = q2 mod 64"
    by (simp add: sextet_def)
  have d3: "n div 262144 = q3"
    unfolding q3_def q2_def q1_def by (simp add: div_mult2_eq [symmetric])
  from assms have "n div 262144 < 64" by simp
  with d3 have s0: "sextet n 0 = q3"
    by (simp add: sextet_def)
  have "((q3 * 64 + q2 mod 64) * 64 + q1 mod 64) * 64 + n mod 64
      = (q2 * 64 + q1 mod 64) * 64 + n mod 64"
    unfolding q3_def by simp
  also have "\<dots> = q1 * 64 + n mod 64"
    unfolding q2_def by simp
  also have "\<dots> = n"
    unfolding q1_def by simp
  finally show ?thesis
    by (simp only: s0 s1 s2 s3)
qed

lemma be24_lt: "be24 bs < 2 ^ 24"
proof (induction bs rule: be24.induct)
  case 1
  show ?case by simp
next
  case (2 a)
  show ?case using unat_u8_lt [of a] by simp
next
  case (3 a b)
  show ?case using unat_u8_lt [of a] unat_u8_lt [of b] by simp
next
  case (4 a b c uu)
  show ?case using unat_u8_lt [of a] unat_u8_lt [of b] unat_u8_lt [of c] by simp
qed

lemma ref_bytes_be24: "ref_bytes (be24 [a, b, c]) = [a, b, c]"
proof -
  let ?n = "unat a * 65536 + unat b * 256 + unat c"
  have n: "?n = (unat a * 256 + unat b) * 256 + unat c"
    by simp
  have d1: "?n div 256 = unat a * 256 + unat b"
    using unat_u8_lt [of c] unfolding n by simp
  have "?n div 65536 = ?n div 256 div 256"
    by (simp add: div_mult2_eq [symmetric])
  also have "\<dots> = unat a"
    using unat_u8_lt [of b] unfolding d1 by simp
  finally have d2: "?n div 65536 = unat a" .
  have "?n mod 256 = ((unat a * 256 + unat b) * 256 + unat c) mod 256"
    by (simp only: n)
  also have "\<dots> = unat c mod 256"
    by (rule mod_mult_self3)
  finally have m0: "?n mod 256 = unat c"
    using unat_u8_lt [of c] by simp
  have m1: "?n div 256 mod 256 = unat b"
    using unat_u8_lt [of b] unfolding d1 by simp
  have m2: "?n div 65536 mod 256 = unat a"
    using unat_u8_lt [of a] unfolding d2 by simp
  have "be24 [a, b, c] = ?n" by simp
  then show ?thesis
    unfolding ref_bytes_def by (simp add: m0 m1 m2)
qed

lemma block_text3:
  "block_text [a, b, c] =
     [base64_table ! sextet (be24 [a, b, c]) 0, base64_table ! sextet (be24 [a, b, c]) 1,
      base64_table ! sextet (be24 [a, b, c]) 2, base64_table ! sextet (be24 [a, b, c]) 3]"
  by (simp add: block_text_def len_out_of_def upt_conv_Cons numeral_2_eq_2 numeral_3_eq_3)

lemma block_text2:
  "block_text [a, b] =
     [base64_table ! sextet (be24 [a, b]) 0, base64_table ! sextet (be24 [a, b]) 1,
      base64_table ! sextet (be24 [a, b]) 2, CHR ''='']"
  by (simp add: block_text_def len_out_of_def upt_conv_Cons numeral_2_eq_2 numeral_3_eq_3)

lemma block_text1:
  "block_text [a] =
     [base64_table ! sextet (be24 [a]) 0, base64_table ! sextet (be24 [a]) 1,
      CHR ''='', CHR ''='']"
  by (simp add: block_text_def len_out_of_def upt_conv_Cons numeral_2_eq_2 numeral_3_eq_3)

lemma ref_value_sextet: "ref_value (base64_table ! sextet n i) = Some (sextet n i)"
  by (rule ref_value_table) (rule sextet_lt)

lemma symbol_not_pad: "base64_table ! sextet n i \<noteq> CHR ''=''"
  using alphabet_plain [OF table_nth_alphabet [OF sextet_lt [of n i]]] by simp

lemma ref_group3: "ref_group 3 (block_text [a, b, c]) = Some [a, b, c]"
proof -
  let ?n = "be24 [a, b, c]"
  have "foldl (\<lambda>n v. n * 64 + v) 0 [sextet ?n 0, sextet ?n 1, sextet ?n 2, sextet ?n 3] = ?n"
    using sextets_value [OF be24_lt [of "[a, b, c]"]] by (simp del: be24.simps)
  then show ?thesis
    unfolding ref_group_def block_text3
    by (simp add: ref_value_sextet ref_bytes_be24 del: be24.simps)
qed

lemma ref_group2: "ref_group 2 (take 3 (block_text [a, b])) = Some [a, b]"
proof -
  let ?n = "be24 [a, b]"
  have n: "?n = be24 [a, b, 0]" by simp
  have z: "sextet ?n 3 = 0" by (simp add: sextet_def)
  have "foldl (\<lambda>n v. n * 64 + v) 0 [sextet ?n 0, sextet ?n 1, sextet ?n 2] * 64 = ?n"
    using sextets_value [OF be24_lt [of "[a, b]"]] unfolding z by (simp del: be24.simps)
  moreover have "?n mod 256 = 0" by simp
  moreover have "take 2 (ref_bytes ?n) = [a, b]"
    unfolding n ref_bytes_be24 by simp
  ultimately show ?thesis
    unfolding ref_group_def block_text2
    by (simp add: ref_value_sextet del: be24.simps)
qed

lemma ref_group1: "ref_group 1 (take 2 (block_text [a])) = Some [a]"
proof -
  let ?n = "be24 [a]"
  have n: "?n = be24 [a, 0, 0]" by simp
  have z: "sextet ?n 3 = 0" "sextet ?n 2 = 0" by (simp_all add: sextet_def)
  have "foldl (\<lambda>n v. n * 64 + v) 0 [sextet ?n 0, sextet ?n 1] * 4096 = ?n"
    using sextets_value [OF be24_lt [of "[a]"]] unfolding z by (simp del: be24.simps)
  moreover have "?n mod 65536 = 0" by simp
  moreover have "take 1 (ref_bytes ?n) = [a]"
    unfolding n ref_bytes_be24 by simp
  ultimately show ?thesis
    unfolding ref_group_def block_text1
    by (simp add: ref_value_sextet del: be24.simps)
qed

lemma ref_decode_block3:
  "ref_base64_decode (block_text [a, b, c] @ rest) =
     map_option ((@) [a, b, c]) (ref_base64_decode rest)"
proof (cases rest)
  case Nil
  have "ref_base64_decode (block_text [a, b, c]) = ref_group 3 (block_text [a, b, c])"
    unfolding block_text3 by (simp add: symbol_not_pad)
  with Nil show ?thesis by (simp add: ref_group3)
next
  case (Cons x xs)
  have "ref_base64_decode (block_text [a, b, c] @ x # xs)
      = (case ref_group 3 (block_text [a, b, c]) of None \<Rightarrow> None
         | Some bs \<Rightarrow> map_option ((@) bs) (ref_base64_decode (x # xs)))"
    unfolding block_text3 by simp
  with Cons show ?thesis by (simp add: ref_group3)
qed

lemma ref_decode_block2: "ref_base64_decode (block_text [a, b]) = Some [a, b]"
proof -
  have "ref_base64_decode (block_text [a, b]) = ref_group 2 (take 3 (block_text [a, b]))"
    unfolding block_text2 by (simp add: symbol_not_pad)
  then show ?thesis by (simp add: ref_group2)
qed

lemma ref_decode_block1: "ref_base64_decode (block_text [a]) = Some [a]"
proof -
  have "ref_base64_decode (block_text [a]) = ref_group 1 (take 2 (block_text [a]))"
    unfolding block_text1 by simp
  then show ?thesis by (simp only: ref_group1)
qed

lemma ref_decode_blocks_text: "ref_base64_decode (blocks_text bs) = Some bs"
proof (induction bs rule: chunk3.induct)
  case 1
  show ?case by (simp add: blocks_text_Nil)
next
  case (2 a)
  show ?case
    by (simp add: blocks_text_def ref_decode_block1)
next
  case (3 a b)
  show ?case
    by (simp add: blocks_text_def ref_decode_block2)
next
  case (4 a b c rest)
  have "blocks_text (a # b # c # rest) = block_text [a, b, c] @ blocks_text rest"
    by (simp add: blocks_text_def)
  with 4 show ?case
    by (simp add: ref_decode_block3)
qed

lemma encode_at_eof:
  "base64_encode buf_in0 out \<lparr>content = bs, eof_ind = True\<rparr> = Inr out"
  by (simp add: base64_encode_def feof_def encode_while.simps)

section \<open>The properties\<close>

text \<open>
  C7. The block transform maps the bytes of "Man" to \<^verbatim>\<open>TWFu\<close>, the bytes of "Ma" to
  \<^verbatim>\<open>TWE=\<close> and the byte of "M" to \<^verbatim>\<open>TQ==\<close>, whatever the input array holds after the
  bytes of the block; the output array is the driver's, whose fifth character is NUL.
\<close>

theorem encode_block_vectors:
  "base64_encode_block (replicate 5 NUL) [0x4D, 0x61, 0x6E] 3 = Inr (''TWFu'' @ [NUL])
   \<and> base64_encode_block (replicate 5 NUL) [0x4D, 0x61, x] 2 = Inr (''TWE='' @ [NUL])
   \<and> base64_encode_block (replicate 5 NUL) [0x4D, y, z] 1 = Inr (''TQ=='' @ [NUL])"
  by (simp add: base64_encode_block_def len_out_of_def encode_block_pack.simps
      encode_block_symbols.simps encode_block_pad.simps table_index_def base64_table_def
      replicate5)

text \<open>
  C2. For a block of one to three bytes (any byte values), the block transform writes
  exactly four characters: the first \<open>len_out\<close> of them, where \<open>len_out\<close> is the ceiling of
  \<open>8 * len_in / 6\<close> (2, 3 and 4 for 1, 2 and 3 bytes), are symbols of the 64-entry table,
  the others are the padding character, so that there are \<open>3 - len_in\<close> padding characters.
\<close>

theorem encode_block_shape:
  assumes "length buf_out = 5" and "length buf_in = 3" and "1 \<le> len_in" and "len_in \<le> 3"
  shows "\<exists>r. base64_encode_block buf_out buf_in len_in = Inr r
           \<and> length (take 4 r) = 4 \<and> drop 4 r = drop 4 buf_out
           \<and> int (len_out_of len_in) = \<lceil>8 * real len_in / 6\<rceil>
           \<and> len_out_of len_in = (if len_in = 1 then 2 else if len_in = 2 then 3 else 4)
           \<and> (\<forall>i < len_out_of len_in. r ! i \<in> set (take 64 base64_table))
           \<and> (\<forall>i. len_out_of len_in \<le> i \<and> i < 4 \<longrightarrow> r ! i = CHR ''='')
           \<and> count_list (take 4 r) (CHR ''='') = 3 - len_in"
proof -
  let ?bs = "take len_in buf_in"
  let ?n = "len_out_of len_in"
  let ?r = "block_text ?bs @ drop 4 buf_out"
  from assms(2-4) have len: "length ?bs = len_in" "1 \<le> length ?bs" "length ?bs \<le> 3"
    by simp_all
  have l4: "length (block_text ?bs) = 4"
    using len(2,3) by (rule length_block_text)
  have run: "base64_encode_block buf_out buf_in len_in = Inr ?r"
    using assms by (rule block_run)
  have tk: "take 4 ?r = block_text ?bs"
    using l4 by simp
  from assms(3,4) have n: "?n = (if len_in = 1 then 2 else if len_in = 2 then 3 else 4)"
    by (auto simp: len_out_of_def)
  then have n4: "?n \<le> 4" by simp
  have syms: "?r ! i \<in> set (take 64 base64_table)" if "i < ?n" for i
    using that n4 len(1)
    by (simp add: block_text_def nth_append table_nth_alphabet sextet_lt)
  have pads: "?r ! i = CHR ''=''" if "?n \<le> i" and "i < 4" for i
  proof -
    from that have "i - ?n < 4 - ?n" by arith
    with that len(1) l4 show ?thesis
      by (simp add: block_text_def nth_append)
  qed
  have cnt: "count_list (take 4 ?r) (CHR ''='') = 3 - len_in"
    using count_eq_block_text [OF len(2,3)] len(1) by (simp only: tk)
  have "length (take 4 ?r) = 4"
    using l4 by (simp only: tk)
  moreover have "drop 4 ?r = drop 4 buf_out"
    using l4 by simp
  moreover note run len_out_ceiling [OF assms(3,4)] n cnt
  moreover have "\<forall>i < ?n. ?r ! i \<in> set (take 64 base64_table)"
    using syms by blast
  moreover have "\<forall>i. ?n \<le> i \<and> i < 4 \<longrightarrow> ?r ! i = CHR ''=''"
    using pads by blast
  ultimately show ?thesis
    by (intro exI [of _ ?r] conjI)
qed

theorem encode_block_shape_witness:
  "\<exists>r. base64_encode_block (replicate 5 NUL) [0x4D, 0x61, 0x6E] 2 = Inr r
      \<and> len_out_of 2 = 3
      \<and> r ! 0 \<in> set (take 64 base64_table) \<and> r ! 2 \<in> set (take 64 base64_table)
      \<and> r ! 3 = CHR ''=''
      \<and> count_list (take 4 r) (CHR ''='') = 1"
proof -
  have "length (replicate 5 NUL) = 5" and "length [0x4D, 0x61, 0x6E :: u8] = 3"
    and "1 \<le> (2::nat)" and "(2::nat) \<le> 3"
    by simp_all
  from encode_block_shape [OF this] obtain r where
    "base64_encode_block (replicate 5 NUL) [0x4D, 0x61, 0x6E] 2 = Inr r"
    "len_out_of 2 = (if (2::nat) = 1 then 2 else if (2::nat) = 2 then 3 else 4)"
    "\<forall>i < len_out_of 2. r ! i \<in> set (take 64 base64_table)"
    "\<forall>i. len_out_of 2 \<le> i \<and> i < 4 \<longrightarrow> r ! i = CHR ''=''"
    "count_list (take 4 r) (CHR ''='') = 3 - 2"
    by blast
  then show ?thesis
    by (intro exI [of _ r]) simp
qed

text \<open>
  C4. For a block of one to three bytes, stage 1 packs the bytes into the value
  \<open>b0 * 2^16 + b1 * 2^8 + b2\<close>, absent trailing bytes counting as 0 (whatever the input
  array holds there), and the \<open>i\<close>-th character written, for \<open>i\<close> below \<open>len_out\<close>, is the
  table entry of the \<open>i\<close>-th 6-bit group of that value counted from its most significant
  end. The packing is by shifts and ORs on the 32-bit value.
\<close>

theorem encode_block_packing:
  assumes "length buf_out = 5" and "length buf_in = 3" and "1 \<le> len_in" and "len_in \<le> 3"
  shows "\<exists>buf r. encode_block_pack buf_in len_in 0 0 = Inr buf
           \<and> unat buf = be24 (take len_in buf_in)
           \<and> base64_encode_block buf_out buf_in len_in = Inr r
           \<and> (\<forall>i < len_out_of len_in. r ! i = base64_table ! sextet (unat buf) i)"
proof -
  let ?bs = "take len_in buf_in"
  from pack_run [OF assms(2-4)] obtain buf
    where pack: "encode_block_pack buf_in len_in 0 0 = Inr buf"
      and val: "unat buf = be24 ?bs" by blast
  let ?r = "block_text ?bs @ drop 4 buf_out"
  have run: "base64_encode_block buf_out buf_in len_in = Inr ?r"
    using assms by (rule block_run)
  from assms(2,4) have len: "length ?bs = len_in" by simp
  have "?r ! i = base64_table ! sextet (unat buf) i" if "i < len_out_of len_in" for i
  proof -
    from that have "i < len_out_of (length ?bs)" by (simp only: len)
    then have "?r ! i = base64_table ! sextet (be24 ?bs) i" by (rule block_text_nth)
    then show ?thesis by (simp only: val)
  qed
  with pack val run show ?thesis by blast
qed

theorem encode_block_packing_witness:
  "\<exists>buf r. encode_block_pack [0x4D, 0x61, 0x6E] 2 0 0 = Inr buf
      \<and> unat buf = 0x4D * 2 ^ 16 + 0x61 * 2 ^ 8
      \<and> base64_encode_block (replicate 5 NUL) [0x4D, 0x61, 0x6E] 2 = Inr r
      \<and> r ! 0 = base64_table ! sextet (unat buf) 0
      \<and> r ! 2 = base64_table ! sextet (unat buf) 2"
proof -
  have "length (replicate 5 NUL) = 5" and "length [0x4D, 0x61, 0x6E :: u8] = 3"
    and "1 \<le> (2::nat)" and "(2::nat) \<le> 3"
    by simp_all
  from encode_block_packing [OF this] obtain buf r where
    "encode_block_pack [0x4D, 0x61, 0x6E] 2 0 0 = Inr buf"
    "unat buf = be24 (take 2 [0x4D, 0x61, 0x6E])"
    "base64_encode_block (replicate 5 NUL) [0x4D, 0x61, 0x6E] 2 = Inr r"
    "\<forall>i < len_out_of 2. r ! i = base64_table ! sextet (unat buf) i"
    by blast
  then show ?thesis
    by (intro exI [of _ buf] exI [of _ r]) (simp add: len_out_of_small)
qed

text \<open>
  C9. For a block of one to three bytes, the index of every table lookup of stage 2,
  \<^verbatim>\<open>(buf & msk) >> (6*(4-i-1))\<close> for \<open>i\<close> below \<open>len_out\<close>, is at most 63: it is inside the
  65-character array and is one of its 64 symbols, and the block transform returns its
  characters without meeting an access outside an array.
\<close>

theorem table_index_in_bounds:
  assumes "length buf_out = 5" and "length buf_in = 3" and "1 \<le> len_in" and "len_in \<le> 3"
  shows "\<exists>buf r. encode_block_pack buf_in len_in 0 0 = Inr buf
           \<and> base64_encode_block buf_out buf_in len_in = Inr r
           \<and> (\<forall>i < len_out_of len_in.
                 table_index buf (msk_at i) i \<le> 63
                 \<and> table_index buf (msk_at i) i < length base64_table
                 \<and> r ! i = base64_table ! table_index buf (msk_at i) i)"
proof -
  let ?bs = "take len_in buf_in"
  from pack_run [OF assms(2-4)] obtain buf
    where pack: "encode_block_pack buf_in len_in 0 0 = Inr buf"
      and val: "unat buf = be24 ?bs" by blast
  let ?r = "block_text ?bs @ drop 4 buf_out"
  have run: "base64_encode_block buf_out buf_in len_in = Inr ?r"
    using assms by (rule block_run)
  from assms(2,4) have len: "length ?bs = len_in" by simp
  from assms(3,4) have n4: "len_out_of len_in \<le> 4"
    by (simp add: len_out_of_def)
  have "table_index buf (msk_at i) i \<le> 63
      \<and> table_index buf (msk_at i) i < length base64_table
      \<and> ?r ! i = base64_table ! table_index buf (msk_at i) i"
    if "i < len_out_of len_in" for i
  proof -
    from that n4 have i4: "i < 4" by simp
    have idx: "table_index buf (msk_at i) i = sextet (unat buf) i"
      using i4 by (rule table_index_sextet)
    have lt: "sextet (unat buf) i < 64" by (rule sextet_lt)
    from that have "i < len_out_of (length ?bs)" by (simp only: len)
    then have "?r ! i = base64_table ! sextet (be24 ?bs) i" by (rule block_text_nth)
    then have "?r ! i = base64_table ! table_index buf (msk_at i) i"
      by (simp only: val idx)
    moreover have "length base64_table = 65" by (simp add: base64_table_def)
    ultimately show ?thesis
      using lt by (simp only: idx) simp
  qed
  with pack run show ?thesis by blast
qed

theorem table_index_in_bounds_witness:
  "\<exists>buf r. encode_block_pack [0xFF, 0xFF, 0xFF] 3 0 0 = Inr buf
      \<and> base64_encode_block (replicate 5 NUL) [0xFF, 0xFF, 0xFF] 3 = Inr r
      \<and> table_index buf (msk_at 0) 0 \<le> 63 \<and> table_index buf (msk_at 3) 3 \<le> 63
      \<and> r ! 3 = base64_table ! table_index buf (msk_at 3) 3"
proof -
  have "length (replicate 5 NUL) = 5" and "length [0xFF, 0xFF, 0xFF :: u8] = 3"
    and "1 \<le> (3::nat)" and "(3::nat) \<le> 3"
    by simp_all
  from table_index_in_bounds [OF this] obtain buf r where
    "encode_block_pack [0xFF, 0xFF, 0xFF] 3 0 0 = Inr buf"
    "base64_encode_block (replicate 5 NUL) [0xFF, 0xFF, 0xFF] 3 = Inr r"
    "\<forall>i < len_out_of 3.
        table_index buf (msk_at i) i \<le> 63
        \<and> table_index buf (msk_at i) i < length base64_table
        \<and> r ! i = base64_table ! table_index buf (msk_at i) i"
    by blast
  then show ?thesis
    by (intro exI [of _ buf] exI [of _ r]) (simp add: len_out_of_small del: msk_at.simps)
qed

text \<open>
  C10. The block transform leaves the output array as long as it was and writes only
  its positions 0 to 3; the input array is a value the transform only reads. So one
  iteration of the driver's loop keeps both arrays at their sizes, keeps the NUL in
  \<open>buf_out[4]\<close>, leaves in \<open>buf_in\<close> what \<^verbatim>\<open>fread\<close> put there, and, when it read a block,
  appends exactly the four characters of the block to the sink.
\<close>

theorem encode_block_frame:
  assumes "length (st_buf_in s) = 3" and "length (st_buf_out s) = 5"
    and "st_buf_out s ! 4 = NUL" and "length buf_in = 3" and "1 \<le> len_in" and "len_in \<le> 3"
  shows "(\<exists>r. base64_encode_block (st_buf_out s) buf_in len_in = Inr r
            \<and> length r = 5 \<and> drop 4 r = drop 4 (st_buf_out s) \<and> r ! 4 = NUL)
         \<and> (\<exists>s'. encode_body s = Inr s'
               \<and> length (st_buf_in s') = 3 \<and> length (st_buf_out s') = 5
               \<and> st_buf_out s' ! 4 = NUL
               \<and> st_buf_in s' = fst (snd (fread (st_buf_in s) (st_in s)))
               \<and> (if fst (fread (st_buf_in s) (st_in s)) = 0
                   then st_buf_out s' = st_buf_out s \<and> st_out s' = st_out s
                   else take 4 (st_buf_out s') = block_text (take 3 (content (st_in s)))
                     \<and> st_out s' = st_out s @ take 4 (st_buf_out s')
                     \<and> length (st_out s') = length (st_out s) + 4))"
proof
  let ?r = "block_text (take len_in buf_in) @ drop 4 (st_buf_out s)"
  have run: "base64_encode_block (st_buf_out s) buf_in len_in = Inr ?r"
    using assms(2,4,5,6) by (rule block_run)
  from assms(4-6) have "1 \<le> length (take len_in buf_in)" "length (take len_in buf_in) \<le> 3"
    by simp_all
  then have l4: "length (block_text (take len_in buf_in)) = 4"
    by (rule length_block_text)
  have d4: "drop 4 (st_buf_out s) = [NUL]"
    using assms(2,3) by (simp add: drop4_of5)
  have "length ?r = 5 \<and> drop 4 ?r = drop 4 (st_buf_out s) \<and> ?r ! 4 = NUL"
    using l4 by (simp add: d4 nth_append)
  with run show "\<exists>r. base64_encode_block (st_buf_out s) buf_in len_in = Inr r
      \<and> length r = 5 \<and> drop 4 r = drop 4 (st_buf_out s) \<and> r ! 4 = NUL"
    by blast
next
  show "\<exists>s'. encode_body s = Inr s'
      \<and> length (st_buf_in s') = 3 \<and> length (st_buf_out s') = 5
      \<and> st_buf_out s' ! 4 = NUL
      \<and> st_buf_in s' = fst (snd (fread (st_buf_in s) (st_in s)))
      \<and> (if fst (fread (st_buf_in s) (st_in s)) = 0
          then st_buf_out s' = st_buf_out s \<and> st_out s' = st_out s
          else take 4 (st_buf_out s') = block_text (take 3 (content (st_in s)))
            \<and> st_out s' = st_out s @ take 4 (st_buf_out s')
            \<and> length (st_out s') = length (st_out s) + 4)"
    using assms(1-3) by (rule body_total)
qed

theorem encode_block_frame_witness:
  "(\<exists>r. base64_encode_block (replicate 5 NUL) [0x4D, 0x61, 0x6E] 3 = Inr r
       \<and> length r = 5 \<and> r ! 4 = NUL)
   \<and> (\<exists>s'. encode_body \<lparr>st_eof = False, st_buf_in = [1, 2, 3],
                 st_buf_out = replicate 5 NUL, st_in = fopen [0x4D], st_out = []\<rparr> = Inr s'
          \<and> st_buf_out s' ! 4 = NUL \<and> st_buf_in s' = [0x4D, 2, 3]
          \<and> st_out s' = take 4 (st_buf_out s') \<and> length (st_out s') = 4)"
proof -
  let ?s = "\<lparr>st_eof = False, st_buf_in = [1, 2, 3 :: u8],
             st_buf_out = replicate 5 NUL, st_in = fopen [0x4D], st_out = []\<rparr>"
  have rd: "fread [1, 2, 3] (fopen [0x4D]) = (1, [0x4D, 2, 3], \<lparr>content = [], eof_ind = True\<rparr>)"
    by (simp add: fread_def fopen_def)
  have "length (st_buf_in ?s) = 3" and "length (st_buf_out ?s) = 5"
    and "st_buf_out ?s ! 4 = NUL" and "length [0x4D, 0x61, 0x6E :: u8] = 3"
    and "1 \<le> (3::nat)" and "(3::nat) \<le> 3"
    by simp_all
  from encode_block_frame [OF this] have
    "(\<exists>r. base64_encode_block (replicate 5 NUL) [0x4D, 0x61, 0x6E] 3 = Inr r
         \<and> length r = 5 \<and> drop 4 r = [NUL] \<and> r ! 4 = NUL)
     \<and> (\<exists>s'. encode_body ?s = Inr s'
           \<and> length (st_buf_in s') = 3 \<and> length (st_buf_out s') = 5
           \<and> st_buf_out s' ! 4 = NUL \<and> st_buf_in s' = [0x4D, 2, 3]
           \<and> take 4 (st_buf_out s') = block_text (take 3 (content (fopen [0x4D])))
           \<and> st_out s' = take 4 (st_buf_out s') \<and> length (st_out s') = 4)"
    by (simp add: rd)
  then show ?thesis by blast
qed

text \<open>
  C6. For an empty stream, as \<^verbatim>\<open>main\<close> opens it, the driver meets no error and appends
  exactly one CRLF and no encoded symbol to the sink.
\<close>

theorem encode_empty:
  "length buf_in0 = 3 \<Longrightarrow> base64_encode buf_in0 out (fopen []) = Inr (out @ CRLF)"
proof -
  assume "length buf_in0 = 3"
  then have "base64_encode buf_in0 out (fopen []) = Inr (out @ lines_text [])"
    by (rule encode_run)
  then show ?thesis
    by (simp add: lines_text_short blocks_text_Nil)
qed

theorem encode_empty_witness:
  "base64_encode [0, 0, 0] [] (fopen []) = Inr [CHR 0x0D, CHR 0x0A]"
  using encode_empty [of "[0, 0, 0]" "[]"] by (simp add: CRLF_def)

text \<open>
  C1, as the code has it. For a stream of exactly 57 bytes the driver appends 76
  characters with no line break among them, one CRLF, and then a second CRLF: the pass
  that wrote the 19 blocks ends with the first CRLF without having met the end of the
  stream, and the next pass, which reads no block, ends with the second.
\<close>

theorem encode_57_bytes:
  assumes "length buf_in0 = 3" and "length bs = 57"
  shows "\<exists>line. base64_encode buf_in0 out (fopen bs) = Inr (out @ line @ CRLF)
           \<and> one_line_76 line"
proof -
  have "base64_encode buf_in0 out (fopen bs) = Inr (out @ lines_text bs)"
    using assms(1) by (rule encode_run)
  moreover have "lines_text bs = blocks_text bs @ CRLF @ lines_text []"
    using assms(2) by (simp add: lines_text_long)
  moreover have "lines_text [] = CRLF"
    by (simp add: lines_text_short blocks_text_Nil)
  moreover have "one_line_76 (blocks_text bs @ CRLF)"
    using assms(2) blocks_text_plain [of _ bs]
    by (auto simp: one_line_76_def length_blocks_text CRLF_def)
  ultimately show ?thesis
    by (intro exI [of _ "blocks_text bs @ CRLF"]) simp
qed

theorem encode_57_bytes_witness:
  "\<exists>line. base64_encode [0, 0, 0] [] (fopen (replicate 57 0)) = Inr (line @ CRLF)
     \<and> one_line_76 line"
  using encode_57_bytes [of "[0, 0, 0]" "replicate 57 0" "[]"] by simp

text \<open>
  The claim as it was written, 76 characters followed by one CRLF and nothing more, fails
  on 57 zero bytes: the text ends with two CRLFs.
\<close>

theorem encode_57_bytes_two_crlf:
  "base64_encode [0, 0, 0] [] (fopen (replicate 57 0))
     = Inr (replicate 76 (CHR ''A'') @ CRLF @ CRLF)
   \<and> \<not> one_line_76 (replicate 76 (CHR ''A'') @ CRLF @ CRLF)"
proof
  show "base64_encode [0, 0, 0] [] (fopen (replicate 57 0))
      = Inr (replicate 76 (CHR ''A'') @ CRLF @ CRLF)"
    by code_simp
  show "\<not> one_line_76 (replicate 76 (CHR ''A'') @ CRLF @ CRLF)"
    by (simp add: one_line_76_def CRLF_def)
qed

text \<open>
  C5. The text the driver appends is a sequence of lines, each followed by a CRLF. No
  line contains a CR or an LF and every line is a whole number of 4-character blocks;
  every line but the last is exactly 19 blocks (76 characters) long, and the last is
  shorter than 19 blocks. So a CRLF follows every 19th block of a line and no line grows
  beyond 19 blocks.
\<close>

theorem encode_line_breaks:
  assumes "length buf_in0 = 3"
  shows "\<exists>ls. base64_encode buf_in0 out (fopen bs)
               = Inr (out @ concat (map (\<lambda>l. l @ CRLF) ls))
           \<and> ls \<noteq> []
           \<and> (\<forall>l \<in> set ls. CHR 0x0D \<notin> set l \<and> CHR 0x0A \<notin> set l \<and> 4 dvd length l)
           \<and> (\<forall>l \<in> set (butlast ls). length l = 76)
           \<and> length (last ls) < 76"
proof -
  have "base64_encode buf_in0 out (fopen bs) = Inr (out @ lines_text bs)"
    using assms by (rule encode_run)
  with lines_text_lines [of bs] show ?thesis
    by auto
qed

theorem encode_line_breaks_witness:
  "\<exists>ls. base64_encode [0, 0, 0] [] (fopen (replicate 60 0))
               = Inr (concat (map (\<lambda>l. l @ CRLF) ls))
           \<and> ls \<noteq> []
           \<and> (\<forall>l \<in> set ls. CHR 0x0D \<notin> set l \<and> CHR 0x0A \<notin> set l \<and> 4 dvd length l)
           \<and> (\<forall>l \<in> set (butlast ls). length l = 76)
           \<and> length (last ls) < 76"
  using encode_line_breaks [of "[0, 0, 0]" "[]" "replicate 60 0"] by simp

text \<open>
  C8. The text the driver appends is a function of the bytes of the stream alone: the
  run returns a text, and whatever the uninitialised input array holds at first, the
  text is the same.
\<close>

theorem encode_deterministic:
  assumes "length buf_in1 = 3" and "length buf_in2 = 3"
  shows "base64_encode buf_in1 out (fopen bs) = base64_encode buf_in2 out (fopen bs)
         \<and> (\<exists>t. base64_encode buf_in1 out (fopen bs) = Inr t)"
  using encode_run [OF assms(1), of out bs] encode_run [OF assms(2), of out bs]
  by simp

theorem encode_deterministic_witness:
  "base64_encode [0, 0, 0] [] (fopen [0x4D, 0x61]) = base64_encode [1, 2, 3] [] (fopen [0x4D, 0x61])
   \<and> (\<exists>t. base64_encode [0, 0, 0] [] (fopen [0x4D, 0x61]) = Inr t)"
proof -
  have "length [0, 0, 0 :: u8] = 3" and "length [1, 2, 3 :: u8] = 3"
    by simp_all
  then show ?thesis
    by (rule encode_deterministic)
qed

text \<open>
  C3. For every byte sequence, the driver returns a text, and removing the CRLF pairs
  from it and decoding the rest with the reference decoder gives the byte sequence back.
\<close>

theorem encode_round_trip:
  assumes "length buf_in0 = 3"
  shows "\<exists>t. base64_encode buf_in0 [] (fopen bs) = Inr t
           \<and> ref_base64_decode (strip_crlf t) = Some bs"
proof -
  have "base64_encode buf_in0 [] (fopen bs) = Inr ([] @ lines_text bs)"
    using assms by (rule encode_run)
  then show ?thesis
    by (simp add: strip_crlf_lines_text ref_decode_blocks_text)
qed

theorem encode_round_trip_witness:
  "\<exists>t. base64_encode [0, 0, 0] [] (fopen [0x4D, 0x61]) = Inr t
     \<and> ref_base64_decode (strip_crlf t) = Some [0x4D, 0x61]"
  using encode_round_trip [of "[0, 0, 0]" "[0x4D, 0x61]"] by simp

end
